theory Spec2Isabelle
  imports Main "HOL-Library.Word" "HOL-Library.AList"
begin

section \<open>Simple Binary Dictionary Protocol (sbdp.py)\<close>

text \<open>
  A shallow embedding of \<^verbatim>\<open>sbdp.py\<close>: the encoder \<^verbatim>\<open>encode_message\<close>, the decoder
  \<^verbatim>\<open>decode_message\<close>, the read loop \<^verbatim>\<open>recvall\<close> and \<^verbatim>\<open>recv_message\<close>.

  \<^item> A Python \<^verbatim>\<open>bytes\<close> object is a list of 8-bit words.
  \<^item> A Python \<^verbatim>\<open>str\<close> is the list of its code points (natural numbers).
  \<^item> A Python \<^verbatim>\<open>dict\<close> is an association list in insertion order; storing under a key
    that is present replaces the value in place (\<open>AList.update\<close>), as a dict does.
  \<^item> Every \<^verbatim>\<open>raise\<close> of the source, and every exception raised by \<^verbatim>\<open>struct.pack\<close>,
    \<^verbatim>\<open>struct.unpack\<close>, \<^verbatim>\<open>str.encode\<close> and \<^verbatim>\<open>bytes.decode\<close>, is a value \<open>Inl e\<close>.
\<close>

subsection \<open>Data model\<close>

type_synonym byte = "8 word"
type_synonym bytes = "byte list"
type_synonym pystr = "nat list"

text \<open>
  The exceptions. \<open>TooShort\<close>, \<open>Incomplete\<close> and \<open>UnknownTypeCode\<close> are the three
  \<^verbatim>\<open>ValueError\<close>s of \<^verbatim>\<open>decode_message\<close>, \<open>UnsupportedType\<close> is the \<^verbatim>\<open>ValueError\<close> of
  \<^verbatim>\<open>encode_message\<close>, \<open>HeaderReadFailed\<close> and \<open>PayloadReadFailed\<close> are the two
  \<^verbatim>\<open>RuntimeError\<close>s of \<^verbatim>\<open>recv_message\<close>. \<open>StructError\<close> is \<^verbatim>\<open>struct.error\<close>: raised by
  \<^verbatim>\<open>struct.pack\<close> on a value out of range and by \<^verbatim>\<open>struct.unpack\<close> on a buffer that has
  not exactly the size of the format (the decoder's buffer underrun).
  \<open>UnicodeEncodeError\<close> and \<open>UnicodeDecodeError\<close> are those of the UTF-8 codec.
\<close>

datatype error =
    TooShort
  | Incomplete
  | UnknownTypeCode
  | UnsupportedType
  | StructError
  | UnicodeEncodeError
  | UnicodeDecodeError
  | HeaderReadFailed
  | PayloadReadFailed

text \<open>
  A value of a message is the pair \<^verbatim>\<open>(typ, value)\<close> of the source, one constructor for
  each type string the encoder knows; \<open>Other typ\<close> is a pair with any other type string.
  A \<^verbatim>\<open>float64\<close> carries the 64 bits of its IEEE-754 representation, which is all that
  \<^verbatim>\<open>struct.pack('!d', _)\<close> and \<^verbatim>\<open>struct.unpack('!d', _)\<close> move.
\<close>

datatype pyvalue =
    Int64 int
  | UInt64 int
  | Float64 "64 word"
  | Str pystr
  | Binary bytes
  | Other string

type_synonym message = "(pystr \<times> pyvalue) list"

definition TYPE_INT64 :: nat where "TYPE_INT64 = 1"
definition TYPE_UINT64 :: nat where "TYPE_UINT64 = 2"
definition TYPE_FLOAT64 :: nat where "TYPE_FLOAT64 = 3"
definition TYPE_STRING :: nat where "TYPE_STRING = 4"
definition TYPE_BINARY :: nat where "TYPE_BINARY = 5"

text \<open>Sequencing of computations that may raise: the first exception is the result.\<close>

fun and_then :: "error + 'a \<Rightarrow> ('a \<Rightarrow> error + 'b) \<Rightarrow> error + 'b" where
  "and_then (Inl e) f = Inl e"
| "and_then (Inr x) f = f x"

subsection \<open>struct.pack and struct.unpack, network byte order\<close>

text \<open>\<open>be_bytes n v\<close>: the \<open>n\<close> low bytes of \<open>v\<close>, most significant first.\<close>

fun be_bytes :: "nat \<Rightarrow> nat \<Rightarrow> bytes" where
  "be_bytes 0 v = []"
| "be_bytes (Suc n) v = be_bytes n (v div 256) @ [of_nat (v mod 256)]"

definition be_nat :: "bytes \<Rightarrow> nat" where
  "be_nat bs = foldl (\<lambda>a b. a * 256 + unat b) 0 bs"

text \<open>\<^verbatim>\<open>struct.pack\<close> raises \<^verbatim>\<open>struct.error\<close> when the value does not fit the format.\<close>

definition pack_u8 :: "nat \<Rightarrow> error + bytes" where
  "pack_u8 v = (if v < 2 ^ 8 then Inr (be_bytes 1 v) else Inl StructError)"

definition pack_u16 :: "nat \<Rightarrow> error + bytes" where
  "pack_u16 v = (if v < 2 ^ 16 then Inr (be_bytes 2 v) else Inl StructError)"

definition pack_u32 :: "nat \<Rightarrow> error + bytes" where
  "pack_u32 v = (if v < 2 ^ 32 then Inr (be_bytes 4 v) else Inl StructError)"

definition pack_i64 :: "int \<Rightarrow> error + bytes" where
  "pack_i64 v =
     (if - (2 ^ 63) \<le> v \<and> v < 2 ^ 63 then Inr (be_bytes 8 (nat (v mod 2 ^ 64)))
      else Inl StructError)"

definition pack_u64 :: "int \<Rightarrow> error + bytes" where
  "pack_u64 v = (if 0 \<le> v \<and> v < 2 ^ 64 then Inr (be_bytes 8 (nat v)) else Inl StructError)"

definition pack_f64 :: "64 word \<Rightarrow> error + bytes" where
  "pack_f64 w = Inr (be_bytes 8 (unat w))"

text \<open>\<^verbatim>\<open>struct.unpack\<close> raises \<^verbatim>\<open>struct.error\<close> unless the buffer has the format's size.\<close>

definition unpack_u8 :: "bytes \<Rightarrow> error + nat" where
  "unpack_u8 bs = (if length bs = 1 then Inr (be_nat bs) else Inl StructError)"

definition unpack_u16 :: "bytes \<Rightarrow> error + nat" where
  "unpack_u16 bs = (if length bs = 2 then Inr (be_nat bs) else Inl StructError)"

definition unpack_u32 :: "bytes \<Rightarrow> error + nat" where
  "unpack_u32 bs = (if length bs = 4 then Inr (be_nat bs) else Inl StructError)"

definition unpack_i64 :: "bytes \<Rightarrow> error + int" where
  "unpack_i64 bs =
     (if length bs = 8
      then Inr (if be_nat bs < 2 ^ 63 then int (be_nat bs) else int (be_nat bs) - 2 ^ 64)
      else Inl StructError)"

definition unpack_u64 :: "bytes \<Rightarrow> error + int" where
  "unpack_u64 bs = (if length bs = 8 then Inr (int (be_nat bs)) else Inl StructError)"

definition unpack_f64 :: "bytes \<Rightarrow> error + 64 word" where
  "unpack_f64 bs = (if length bs = 8 then Inr (of_nat (be_nat bs)) else Inl StructError)"

subsection \<open>The UTF-8 codec of str.encode and bytes.decode\<close>

text \<open>
  Python's built-in strict UTF-8 codec. A code point is encodable when it is at most
  \<open>0x10FFFF\<close> and no surrogate; the decoder accepts exactly the well-formed sequences
  (no overlong form, no surrogate, nothing above \<open>0x10FFFF\<close>, no truncated sequence).
\<close>

definition scalar_value :: "nat \<Rightarrow> bool" where
  "scalar_value c = (c < 0x110000 \<and> \<not> (0xD800 \<le> c \<and> c \<le> 0xDFFF))"

definition utf8_cp :: "nat \<Rightarrow> nat list" where
  "utf8_cp c =
     (if c < 0x80 then [c]
      else if c < 0x800 then [0xC0 + c div 64, 0x80 + c mod 64]
      else if c < 0x10000 then [0xE0 + c div 4096, 0x80 + c div 64 mod 64, 0x80 + c mod 64]
      else [0xF0 + c div 262144, 0x80 + c div 4096 mod 64, 0x80 + c div 64 mod 64,
            0x80 + c mod 64])"

definition utf8_bytes :: "pystr \<Rightarrow> bytes" where
  "utf8_bytes s = map of_nat (concat (map utf8_cp s))"

definition utf8_encode :: "pystr \<Rightarrow> error + bytes" where
  "utf8_encode s = (if list_all scalar_value s then Inr (utf8_bytes s) else Inl UnicodeEncodeError)"

definition cont :: "nat \<Rightarrow> bool" where
  "cont b = (0x80 \<le> b \<and> b < 0xC0)"

fun utf8_scan :: "nat list \<Rightarrow> pystr option" where
  "utf8_scan [] = Some []"
| "utf8_scan (b0 # bs) =
     (if b0 < 0x80 then map_option (Cons b0) (utf8_scan bs)
      else if 0xC2 \<le> b0 \<and> b0 < 0xE0 then
        (case bs of
           b1 # r \<Rightarrow>
             if cont b1
             then map_option (Cons ((b0 - 0xC0) * 64 + (b1 - 0x80))) (utf8_scan r)
             else None
         | _ \<Rightarrow> None)
      else if 0xE0 \<le> b0 \<and> b0 < 0xF0 then
        (case bs of
           b1 # b2 # r \<Rightarrow>
             (let c = (b0 - 0xE0) * 4096 + (b1 - 0x80) * 64 + (b2 - 0x80)
              in if cont b1 \<and> cont b2 \<and> 0x800 \<le> c \<and> \<not> (0xD800 \<le> c \<and> c \<le> 0xDFFF)
                 then map_option (Cons c) (utf8_scan r)
                 else None)
         | _ \<Rightarrow> None)
      else if 0xF0 \<le> b0 \<and> b0 < 0xF5 then
        (case bs of
           b1 # b2 # b3 # r \<Rightarrow>
             (let c = (b0 - 0xF0) * 262144 + (b1 - 0x80) * 4096 + (b2 - 0x80) * 64 + (b3 - 0x80)
              in if cont b1 \<and> cont b2 \<and> cont b3 \<and> 0x10000 \<le> c \<and> c < 0x110000
                 then map_option (Cons c) (utf8_scan r)
                 else None)
         | _ \<Rightarrow> None)
      else None)"

definition utf8_decode :: "bytes \<Rightarrow> error + pystr" where
  "utf8_decode bs =
     (case utf8_scan (map unat bs) of None \<Rightarrow> Inl UnicodeDecodeError | Some s \<Rightarrow> Inr s)"

subsection \<open>encode_message\<close>

text \<open>
  The body of the \<^verbatim>\<open>for\<close> loop: the byte strings one item appends to \<^verbatim>\<open>parts\<close>, in the
  order of the source (key length, key bytes, type code, value).
\<close>

definition encode_item :: "pystr \<Rightarrow> pyvalue \<Rightarrow> bytes list \<Rightarrow> error + bytes list" where
  "encode_item key tv parts =
     and_then (utf8_encode key) (\<lambda>key_bytes.
     and_then (pack_u16 (length key_bytes)) (\<lambda>kl.
       (case tv of
          Int64 v \<Rightarrow>
            and_then (pack_u8 TYPE_INT64) (\<lambda>tc.
            and_then (pack_i64 v) (\<lambda>vb. Inr (parts @ [kl, key_bytes, tc, vb])))
        | UInt64 v \<Rightarrow>
            and_then (pack_u8 TYPE_UINT64) (\<lambda>tc.
            and_then (pack_u64 v) (\<lambda>vb. Inr (parts @ [kl, key_bytes, tc, vb])))
        | Float64 v \<Rightarrow>
            and_then (pack_u8 TYPE_FLOAT64) (\<lambda>tc.
            and_then (pack_f64 v) (\<lambda>vb. Inr (parts @ [kl, key_bytes, tc, vb])))
        | Str v \<Rightarrow>
            and_then (pack_u8 TYPE_STRING) (\<lambda>tc.
            and_then (utf8_encode v) (\<lambda>value_bytes.
            and_then (pack_u32 (length value_bytes)) (\<lambda>vl.
              Inr (parts @ [kl, key_bytes, tc, vl, value_bytes]))))
        | Binary v \<Rightarrow>
            and_then (pack_u8 TYPE_BINARY) (\<lambda>tc.
            and_then (pack_u32 (length v)) (\<lambda>vl.
              Inr (parts @ [kl, key_bytes, tc, vl, v])))
        | Other typ \<Rightarrow> Inl UnsupportedType)))"

fun encode_items :: "message \<Rightarrow> bytes list \<Rightarrow> error + bytes list" where
  "encode_items [] parts = Inr parts"
| "encode_items ((key, tv) # items) parts =
     and_then (encode_item key tv parts) (\<lambda>parts'. encode_items items parts')"

definition encode_message :: "message \<Rightarrow> error + bytes" where
  "encode_message data =
     and_then (encode_items data []) (\<lambda>parts.
       let payload = concat parts in
       and_then (pack_u32 (length payload)) (\<lambda>header. Inr (header @ payload)))"

subsection \<open>decode_message\<close>

text \<open>The slice \<^verbatim>\<open>xs[a:b]\<close> for \<open>0 \<le> a\<close>: it is cut at the end of \<open>xs\<close>, never an error.\<close>

definition slice :: "'a list \<Rightarrow> nat \<Rightarrow> nat \<Rightarrow> 'a list" where
  "slice xs a b = take (b - a) (drop a xs)"

text \<open>
  One pass of the \<^verbatim>\<open>while\<close> loop, from \<open>offset\<close>: the key, the value and the offset after
  the field.
\<close>

definition decode_field :: "bytes \<Rightarrow> nat \<Rightarrow> error + (pystr \<times> pyvalue \<times> nat)" where
  "decode_field payload offset =
     and_then (unpack_u16 (slice payload offset (offset + 2))) (\<lambda>key_length.
     let offset = offset + 2 in
     and_then (utf8_decode (slice payload offset (offset + key_length))) (\<lambda>key.
     let offset = offset + key_length in
     and_then (unpack_u8 (slice payload offset (offset + 1))) (\<lambda>type_code.
     let offset = offset + 1 in
     if type_code = TYPE_INT64 then
       and_then (unpack_i64 (slice payload offset (offset + 8))) (\<lambda>v.
         Inr (key, Int64 v, offset + 8))
     else if type_code = TYPE_UINT64 then
       and_then (unpack_u64 (slice payload offset (offset + 8))) (\<lambda>v.
         Inr (key, UInt64 v, offset + 8))
     else if type_code = TYPE_FLOAT64 then
       and_then (unpack_f64 (slice payload offset (offset + 8))) (\<lambda>v.
         Inr (key, Float64 v, offset + 8))
     else if type_code = TYPE_STRING then
       and_then (unpack_u32 (slice payload offset (offset + 4))) (\<lambda>str_length.
       let offset = offset + 4 in
       and_then (utf8_decode (slice payload offset (offset + str_length))) (\<lambda>v.
         Inr (key, Str v, offset + str_length)))
     else if type_code = TYPE_BINARY then
       and_then (unpack_u32 (slice payload offset (offset + 4))) (\<lambda>bin_length.
       let offset = offset + 4 in
         Inr (key, Binary (slice payload offset (offset + bin_length)), offset + bin_length))
     else Inl UnknownTypeCode)))"

lemma and_then_Inr_iff:
  "and_then x f = Inr y \<longleftrightarrow> (\<exists>a. x = Inr a \<and> f a = Inr y)"
  by (cases x) simp_all

lemma decode_field_offset:
  assumes "decode_field payload offset = Inr (key, v, offset')"
  shows "offset < offset'"
  using assms
  by (auto simp: decode_field_def Let_def and_then_Inr_iff split: if_splits)

function decode_loop :: "bytes \<Rightarrow> nat \<Rightarrow> message \<Rightarrow> error + message" where
  "decode_loop payload offset result =
     (if offset < length payload then
        (case decode_field payload offset of
           Inl e \<Rightarrow> Inl e
         | Inr (key, v, offset') \<Rightarrow> decode_loop payload offset' (AList.update key v result))
      else Inr result)"
  by pat_completeness auto
termination
proof (relation "measure (\<lambda>(payload, offset, result). length payload - offset)")
  show "wf (measure (\<lambda>(payload, offset, result). length payload - offset))"
    by simp
next
  fix payload :: bytes and offset :: nat and result :: message
    and x2 :: "pystr \<times> pyvalue \<times> nat" and key y v offset'
  assume "offset < length payload" and "decode_field payload offset = Inr x2"
    and "(key, y) = x2" and "(v, offset') = y"
  then have "offset < offset'"
    using decode_field_offset by metis
  with \<open>offset < length payload\<close>
  show "((payload, offset', AList.update key v result), (payload, offset, result))
          \<in> measure (\<lambda>(payload, offset, result). length payload - offset)"
    by simp
qed

declare decode_loop.simps [simp del]

definition decode_message :: "bytes \<Rightarrow> error + message" where
  "decode_message message_bytes =
     (if length message_bytes < 4 then Inl TooShort
      else
        and_then (unpack_u32 (take 4 message_bytes)) (\<lambda>total_length.
        if length message_bytes < 4 + total_length then Inl Incomplete
        else decode_loop (slice message_bytes 4 (4 + total_length)) 0 []))"

subsection \<open>recvall and recv_message\<close>

text \<open>
  The socket is the sequence of chunks the peer still delivers. \<^verbatim>\<open>sock.recv(bufsize)\<close>
  returns at most \<open>bufsize\<close> bytes of the first chunk and leaves the rest of it for the
  next call; an empty chunk, or no chunk at all, is the closed connection, where
  \<^verbatim>\<open>recv\<close> returns \<^verbatim>\<open>b""\<close> (and does so again on every later call).
\<close>

type_synonym sock = "bytes list"

fun recv :: "sock \<Rightarrow> nat \<Rightarrow> bytes \<times> sock" where
  "recv [] bufsize = ([], [])"
| "recv (c # cs) bufsize =
     (if c = [] then ([], c # cs)
      else if length c \<le> bufsize then (c, cs)
      else (take bufsize c, drop bufsize c # cs))"

function recvall_loop :: "sock \<Rightarrow> nat \<Rightarrow> bytes \<Rightarrow> bytes \<times> sock" where
  "recvall_loop sock n data =
     (if length data < n then
        (case recv sock (n - length data) of
           (packet, sock') \<Rightarrow>
             if packet = [] then (data, sock')
             else recvall_loop sock' n (data @ packet))
      else (data, sock))"
  by pat_completeness auto
termination
  by (relation "measure (\<lambda>(sock, n, data). n - length data)") (auto simp: neq_Nil_conv)

declare recvall_loop.simps [simp del]

definition recvall :: "sock \<Rightarrow> nat \<Rightarrow> bytes \<times> sock" where
  "recvall sock n = recvall_loop sock n []"

definition recv_message :: "sock \<Rightarrow> (error + message) \<times> sock" where
  "recv_message sock =
     (case recvall sock 4 of
        (header, sock1) \<Rightarrow>
          if length header < 4 then (Inl HeaderReadFailed, sock1)
          else
            (case unpack_u32 header of
               Inl e \<Rightarrow> (Inl e, sock1)
             | Inr total_length \<Rightarrow>
                 (case recvall sock1 total_length of
                    (payload, sock2) \<Rightarrow>
                      if length payload < total_length then (Inl PayloadReadFailed, sock2)
                      else (decode_message (header @ payload), sock2))))"

subsection \<open>Valid messages and the wire format\<close>

text \<open>
  The messages of the data model: a key is text whose UTF-8 encoding has at most 65535
  bytes, an \<^verbatim>\<open>int64\<close> is in the signed and a \<^verbatim>\<open>uint64\<close> in the unsigned 64-bit range,
  a string (in UTF-8) and a binary have at most \<open>2^32 - 1\<close> bytes, and no key occurs
  twice (a dict).
\<close>

definition valid_key :: "pystr \<Rightarrow> bool" where
  "valid_key k = (list_all scalar_value k \<and> length (utf8_bytes k) \<le> 65535)"

fun valid_value :: "pyvalue \<Rightarrow> bool" where
  "valid_value (Int64 v) = (- (2 ^ 63) \<le> v \<and> v < 2 ^ 63)"
| "valid_value (UInt64 v) = (0 \<le> v \<and> v < 2 ^ 64)"
| "valid_value (Float64 v) = True"
| "valid_value (Str v) = (list_all scalar_value v \<and> length (utf8_bytes v) \<le> 4294967295)"
| "valid_value (Binary v) = (length v \<le> 4294967295)"
| "valid_value (Other typ) = False"

definition valid_field :: "pystr \<times> pyvalue \<Rightarrow> bool" where
  "valid_field kv = (valid_key (fst kv) \<and> valid_value (snd kv))"

definition valid_message :: "message \<Rightarrow> bool" where
  "valid_message m = (distinct (map fst m) \<and> list_all valid_field m)"

text \<open>The bytes of a field on the wire (section 6 of the specification).\<close>

fun value_bytes :: "pyvalue \<Rightarrow> bytes" where
  "value_bytes (Int64 v) = [1] @ be_bytes 8 (nat (v mod 2 ^ 64))"
| "value_bytes (UInt64 v) = [2] @ be_bytes 8 (nat v)"
| "value_bytes (Float64 v) = [3] @ be_bytes 8 (unat v)"
| "value_bytes (Str v) = [4] @ be_bytes 4 (length (utf8_bytes v)) @ utf8_bytes v"
| "value_bytes (Binary v) = [5] @ be_bytes 4 (length v) @ v"
| "value_bytes (Other typ) = []"

definition field_bytes :: "pystr \<times> pyvalue \<Rightarrow> bytes" where
  "field_bytes kv =
     be_bytes 2 (length (utf8_bytes (fst kv))) @ utf8_bytes (fst kv) @ value_bytes (snd kv)"

definition payload_bytes :: "message \<Rightarrow> bytes" where
  "payload_bytes m = concat (map field_bytes m)"

text \<open>The size of a field and of a payload, in bytes.\<close>

fun value_size :: "pyvalue \<Rightarrow> nat" where
  "value_size (Str v) = 1 + 4 + length (utf8_bytes v)"
| "value_size (Binary v) = 1 + 4 + length v"
| "value_size (Other typ) = 0"
| "value_size v = 1 + 8"

definition payload_size :: "message \<Rightarrow> nat" where
  "payload_size m = (\<Sum>kv\<leftarrow>m. 2 + length (utf8_bytes (fst kv)) + value_size (snd kv))"

text \<open>
  The state of the \<^verbatim>\<open>while\<close> loop of \<^verbatim>\<open>decode_message\<close> after \<open>n\<close> passes that raised
  nothing: the offset and the mapping assembled so far.
\<close>

fun after_passes :: "bytes \<Rightarrow> nat \<Rightarrow> (nat \<times> message) option" where
  "after_passes payload 0 = Some (0, [])"
| "after_passes payload (Suc n) =
     (case after_passes payload n of
        None \<Rightarrow> None
      | Some (offset, result) \<Rightarrow>
          if offset < length payload then
            (case decode_field payload offset of
               Inl e \<Rightarrow> None
             | Inr (key, v, offset') \<Rightarrow> Some (offset', AList.update key v result))
          else None)"

text \<open>The bytes a socket delivers before the peer closes.\<close>

definition available :: "sock \<Rightarrow> bytes" where
  "available sock = concat (takeWhile (\<lambda>c. c \<noteq> []) sock)"

section \<open>Properties\<close>

subsection \<open>Byte order\<close>

lemma length_be_bytes [simp]: "length (be_bytes n v) = n"
  by (induction n arbitrary: v) simp_all

lemma be_nat_snoc: "be_nat (bs @ [b]) = be_nat bs * 256 + unat b"
  by (simp add: be_nat_def)

lemma unat_byte_of_nat: "unat (of_nat (v mod 256) :: byte) = v mod 256"
  by (simp add: unat_of_nat)

lemma be_nat_be_bytes_mod: "be_nat (be_bytes n v) = v mod 256 ^ n"
proof (induction n arbitrary: v)
  case 0
  show ?case by (simp add: be_nat_def)
next
  case (Suc n)
  have "v mod (256 * 256 ^ n) = 256 * (v div 256 mod 256 ^ n) + v mod 256"
    by (rule mod_mult2_eq)
  with Suc show ?case
    by (simp add: be_nat_snoc unat_byte_of_nat)
qed

lemma be_nat_be_bytes: "v < 256 ^ n \<Longrightarrow> be_nat (be_bytes n v) = v"
  by (simp add: be_nat_be_bytes_mod)

subsection \<open>UTF-8: decoding an encoding\<close>

lemma utf8_cp_bytes: "c < 0x110000 \<Longrightarrow> b \<in> set (utf8_cp c) \<Longrightarrow> b < 256"
  by (auto simp: utf8_cp_def split: if_splits)

lemma shift64: "(q::nat) div 64 * (64 * k) + q mod 64 * k = q * k"
proof -
  have "q div 64 * (64 * k) + q mod 64 * k = (q div 64 * 64 + q mod 64) * k"
    by (simp only: add_mult_distrib mult.assoc)
  also have "\<dots> = q * k"
    by (simp only: div_mult_mod_eq)
  finally show ?thesis .
qed

lemma split3: "c div 4096 * 4096 + c div 64 mod 64 * 64 + c mod 64 = (c::nat)"
proof -
  have "c div 4096 = c div 64 div 64"
    by (simp add: div_mult2_eq [symmetric])
  moreover have "c div 64 div 64 * 4096 + c div 64 mod 64 * 64 = c div 64 * 64"
    using shift64 [of "c div 64" 64] by simp
  ultimately show ?thesis by simp
qed

lemma split4:
  "c div 262144 * 262144 + c div 4096 mod 64 * 4096 + c div 64 mod 64 * 64 + c mod 64 = (c::nat)"
proof -
  have "c div 262144 = c div 4096 div 64"
    by (simp add: div_mult2_eq [symmetric])
  moreover have "c div 4096 div 64 * 262144 + c div 4096 mod 64 * 4096 = c div 4096 * 4096"
    using shift64 [of "c div 4096" 4096] by simp
  ultimately have
    "c div 262144 * 262144 + c div 4096 mod 64 * 4096 + c div 64 mod 64 * 64 + c mod 64
       = c div 4096 * 4096 + c div 64 mod 64 * 64 + c mod 64"
    by simp
  then show ?thesis by (simp add: split3)
qed

lemma utf8_scan_cp:
  assumes "scalar_value c"
  shows "utf8_scan (utf8_cp c @ rest) = map_option (Cons c) (utf8_scan rest)"
proof -
  have "c < 0x80 \<or> (0x80 \<le> c \<and> c < 0x800) \<or> (0x800 \<le> c \<and> c < 0x10000)
      \<or> (0x10000 \<le> c \<and> c < 0x110000)"
    using assms unfolding scalar_value_def by arith
  then show ?thesis
  proof (elim disjE conjE)
    assume "c < 0x80"
    then show ?thesis by (simp add: utf8_cp_def)
  next
    assume c: "0x80 \<le> c" "c < 0x800"
    then have "2 \<le> c div 64" "c div 64 < 32" "c mod 64 < 64"
      by arith+
    with c show ?thesis by (simp add: utf8_cp_def cont_def)
  next
    assume c: "0x800 \<le> c" "c < 0x10000"
    have "c div 4096 < 16"
      using c by (simp add: less_mult_imp_div_less)
    moreover have "c div 4096 * 4096 + c div 64 mod 64 * 64 + c mod 64 = c"
      by (rule split3)
    ultimately show ?thesis
      using c assms by (simp add: utf8_cp_def cont_def scalar_value_def Let_def)
  next
    assume c: "0x10000 \<le> c" "c < 0x110000"
    have "c div 262144 < 5"
      using c by (simp add: less_mult_imp_div_less)
    moreover have
      "c div 262144 * 262144 + c div 4096 mod 64 * 4096 + c div 64 mod 64 * 64 + c mod 64 = c"
      by (rule split4)
    ultimately show ?thesis
      using c by (simp add: utf8_cp_def cont_def Let_def)
  qed
qed

lemma utf8_scan_concat:
  "list_all scalar_value s \<Longrightarrow> utf8_scan (concat (map utf8_cp s)) = Some s"
  by (induction s) (simp_all add: utf8_scan_cp)

lemma map_unat_of_nat:
  "\<forall>b\<in>set xs. b < 256 \<Longrightarrow> map unat (map of_nat xs :: bytes) = xs"
  by (induction xs) (simp_all add: unat_of_nat)

lemma utf8_decode_encode:
  assumes "utf8_encode s = Inr bs"
  shows "utf8_decode bs = Inr s"
proof -
  from assms have s: "list_all scalar_value s" and bs: "bs = utf8_bytes s"
    by (auto simp: utf8_encode_def split: if_splits)
  have "\<forall>b\<in>set (concat (map utf8_cp s)). b < 256"
    using s utf8_cp_bytes by (auto simp: list_all_iff scalar_value_def)
  then have "map unat bs = concat (map utf8_cp s)"
    unfolding bs utf8_bytes_def by (rule map_unat_of_nat)
  then show ?thesis
    by (simp add: utf8_decode_def utf8_scan_concat s)
qed

subsection \<open>Evaluating the byte order on numerals\<close>

lemma be_bytes_numeral:
  "be_bytes (numeral k) v = be_bytes (pred_numeral k) (v div 256) @ [of_nat (v mod 256)]"
proof -
  have "numeral k = Suc (pred_numeral k)"
    by (rule numeral_eq_Suc)
  then show ?thesis
    by (simp only: be_bytes.simps)
qed

lemma be_bytes_1: "be_bytes 1 v = [of_nat (v mod 256)]"
  by simp

lemmas be_eval = be_bytes_numeral be_bytes_1 be_nat_def

lemmas type_codes =
  TYPE_INT64_def TYPE_UINT64_def TYPE_FLOAT64_def TYPE_STRING_def TYPE_BINARY_def

lemmas unpack_defs =
  unpack_u8_def unpack_u16_def unpack_u32_def unpack_i64_def unpack_u64_def unpack_f64_def

lemmas pack_defs =
  pack_u8_def pack_u16_def pack_u32_def pack_i64_def pack_u64_def pack_f64_def

subsection \<open>The concrete frame of the specification\<close>

lemma age_key: "utf8_encode [97, 103, 101] = Inr [0x61, 0x67, 0x65]"
  by (simp add: utf8_encode_def utf8_bytes_def utf8_cp_def scalar_value_def)

lemma age_item:
  "encode_item [97, 103, 101] (Int64 30) []
     = Inr [[0, 3], [0x61, 0x67, 0x65], [1], [0, 0, 0, 0, 0, 0, 0, 30]]"
  by (simp add: encode_item_def age_key pack_defs type_codes be_eval
      numeral_3_eq_3 [symmetric])

lemma age_field:
  "decode_field [0x00, 0x03, 0x61, 0x67, 0x65, 0x01,
                 0x00, 0x00, 0x00, 0x00, 0x00, 0x00, 0x00, 0x1E] 0
     = Inr ([97, 103, 101], Int64 30, 14)"
  by (simp add: decode_field_def slice_def unpack_defs utf8_decode_def cont_def
      type_codes be_eval)

lemma age_encoded:
  "encode_message [([97, 103, 101], Int64 30)]
     = Inr [0x00, 0x00, 0x00, 0x0E, 0x00, 0x03, 0x61, 0x67, 0x65, 0x01,
            0x00, 0x00, 0x00, 0x00, 0x00, 0x00, 0x00, 0x1E]"
  by (simp add: encode_message_def age_item pack_u32_def be_eval)

lemma age_decoded:
  "decode_message [0x00, 0x00, 0x00, 0x0E, 0x00, 0x03, 0x61, 0x67, 0x65, 0x01,
                   0x00, 0x00, 0x00, 0x00, 0x00, 0x00, 0x00, 0x1E]
     = Inr [([97, 103, 101], Int64 30)]"
  by (simp add: decode_message_def unpack_u32_def slice_def be_eval decode_loop.simps
      age_field)

text \<open>
  C6. The message \<^verbatim>\<open>{"age": ("int64", 30)}\<close> (the key is the code points 97, 103, 101)
  encodes to exactly the 18 bytes \<^verbatim>\<open>00 00 00 0E 00 03 61 67 65 01 00 00 00 00 00 00 00 1E\<close>,
  and decoding these 18 bytes returns the message.
\<close>

theorem age_frame:
  "encode_message [([97, 103, 101], Int64 30)]
     = Inr [0x00, 0x00, 0x00, 0x0E, 0x00, 0x03, 0x61, 0x67, 0x65, 0x01,
            0x00, 0x00, 0x00, 0x00, 0x00, 0x00, 0x00, 0x1E]
   \<and> decode_message [0x00, 0x00, 0x00, 0x0E, 0x00, 0x03, 0x61, 0x67, 0x65, 0x01,
                      0x00, 0x00, 0x00, 0x00, 0x00, 0x00, 0x00, 0x1E]
     = Inr [([97, 103, 101], Int64 30)]"
  using age_encoded age_decoded by (rule conjI)

subsection \<open>Sizes\<close>

lemma length_value_bytes: "valid_value v \<Longrightarrow> length (value_bytes v) = value_size v"
  by (cases v) simp_all

lemma length_payload_bytes:
  "list_all valid_field m \<Longrightarrow> length (payload_bytes m) = payload_size m"
  by (induction m)
    (simp_all add: payload_bytes_def payload_size_def field_bytes_def valid_field_def
      length_value_bytes)

subsection \<open>Unpacking what was packed\<close>

lemma unpack_pack_u8: "v < 256 \<Longrightarrow> unpack_u8 (be_bytes 1 v) = Inr v"
  using be_nat_be_bytes_mod [of 1 v] by (simp add: unpack_u8_def)

lemma unpack_pack_u16: "v < 65536 \<Longrightarrow> unpack_u16 (be_bytes 2 v) = Inr v"
  by (simp add: unpack_u16_def be_nat_be_bytes_mod)

lemma unpack_pack_u32: "v < 4294967296 \<Longrightarrow> unpack_u32 (be_bytes 4 v) = Inr v"
  by (simp add: unpack_u32_def be_nat_be_bytes_mod)

lemma unpack_pack_u64:
  "0 \<le> v \<Longrightarrow> v < 2 ^ 64 \<Longrightarrow> unpack_u64 (be_bytes 8 (nat v)) = Inr v"
  by (simp add: unpack_u64_def be_nat_be_bytes_mod nat_less_iff)

lemma unpack_pack_f64: "unpack_f64 (be_bytes 8 (unat w)) = Inr w"
proof -
  have "unat w < 2 ^ 64"
    using unsigned_less [of w] by simp
  then show ?thesis
    by (simp add: unpack_f64_def be_nat_be_bytes_mod)
qed

lemma unpack_pack_i64:
  assumes "- (2 ^ 63) \<le> v" "v < 2 ^ 63"
  shows "unpack_i64 (be_bytes 8 (nat (v mod 2 ^ 64))) = Inr v"
proof -
  have b: "be_nat (be_bytes 8 (nat (v mod 2 ^ 64))) = nat (v mod 2 ^ 64)"
    by (simp add: be_nat_be_bytes_mod nat_less_iff)
  show ?thesis
  proof (cases "0 \<le> v")
    case True
    with assms have "v mod 2 ^ 64 = v" by simp
    with True assms b show ?thesis
      by (simp add: unpack_i64_def nat_less_iff)
  next
    case False
    have "(v + 2 ^ 64) mod 2 ^ 64 = v + 2 ^ 64"
      by (rule mod_pos_pos_trivial) (use assms False in simp_all)
    then have "v mod 2 ^ 64 = v + 2 ^ 64"
      by simp
    with False assms b show ?thesis
      by (simp add: unpack_i64_def nat_less_iff)
  qed
qed

subsection \<open>What the encoder returns\<close>

lemma encode_item_valid:
  assumes "valid_key k" "valid_value v"
  shows "\<exists>ps. encode_item k v parts = Inr (parts @ ps) \<and> concat ps = field_bytes (k, v)"
  using assms
  by (cases v) (simp_all add: encode_item_def utf8_encode_def valid_key_def pack_defs
      type_codes field_bytes_def)

lemma encode_item_Inr:
  assumes "encode_item k v parts = Inr parts'"
  shows "valid_key k \<and> valid_value v"
  using assms
  by (cases v)
    (auto simp: encode_item_def and_then_Inr_iff utf8_encode_def valid_key_def pack_defs
      split: if_splits)

lemma encode_items_valid:
  "list_all valid_field m \<Longrightarrow>
     \<exists>ps. encode_items m parts = Inr (parts @ ps) \<and> concat ps = payload_bytes m"
proof (induction m arbitrary: parts)
  case Nil
  show ?case by (simp add: payload_bytes_def)
next
  case (Cons kv m)
  obtain k v where kv: "kv = (k, v)" by (cases kv)
  from Cons.prems have "valid_field kv" and m: "list_all valid_field m"
    by simp_all
  then have "valid_key k" "valid_value v"
    by (simp_all add: valid_field_def kv)
  then obtain ps where ps: "encode_item k v parts = Inr (parts @ ps)"
      "concat ps = field_bytes (k, v)"
    using encode_item_valid by blast
  from Cons.IH [OF m, of "parts @ ps"] obtain qs where
    qs: "encode_items m (parts @ ps) = Inr ((parts @ ps) @ qs)" "concat qs = payload_bytes m"
    by blast
  have "encode_items (kv # m) parts = Inr (parts @ (ps @ qs))"
    using ps qs by (simp add: kv)
  moreover have "concat (ps @ qs) = payload_bytes (kv # m)"
    using ps qs by (simp add: kv payload_bytes_def)
  ultimately show ?case by blast
qed

lemma encode_items_Inr:
  "encode_items m parts = Inr parts' \<Longrightarrow> list_all valid_field m"
proof (induction m arbitrary: parts)
  case Nil
  show ?case by simp
next
  case (Cons kv m)
  obtain k v where kv: "kv = (k, v)" by (cases kv)
  from Cons.prems obtain ps where ps: "encode_item k v parts = Inr ps"
    and rest: "encode_items m ps = Inr parts'"
    by (auto simp: kv and_then_Inr_iff)
  from encode_item_Inr [OF ps] have "valid_field kv"
    by (simp add: kv valid_field_def)
  with Cons.IH [OF rest] show ?case
    by simp
qed

lemma encode_message_iff:
  "encode_message m = Inr f \<longleftrightarrow>
     list_all valid_field m \<and> length (payload_bytes m) < 2 ^ 32 \<and>
     f = be_bytes 4 (length (payload_bytes m)) @ payload_bytes m"
proof (cases "list_all valid_field m")
  case True
  then obtain ps where "encode_items m [] = Inr ps" "concat ps = payload_bytes m"
    using encode_items_valid [of m "[]"] by auto
  with True show ?thesis
    by (auto simp: encode_message_def pack_u32_def Let_def split: if_splits)
next
  case False
  then have "\<And>ps. encode_items m [] \<noteq> Inr ps"
    using encode_items_Inr by blast
  with False show ?thesis
    by (auto simp: encode_message_def and_then_Inr_iff)
qed

subsection \<open>Decoding the bytes of valid fields\<close>

lemma decode_field_bytes:
  assumes "valid_key k" "valid_value v"
  shows "decode_field (pre @ field_bytes (k, v) @ rest) (length pre)
           = Inr (k, v, length pre + length (field_bytes (k, v)))"
proof -
  define kb where "kb = utf8_bytes k"
  have kl: "length kb < 65536" and key: "utf8_decode kb = Inr k"
    using assms(1) utf8_decode_encode [of k kb]
    by (simp_all add: valid_key_def kb_def utf8_encode_def)
  have kb: "utf8_bytes k = kb"
    by (simp add: kb_def)
  show ?thesis
  proof (cases v)
    case (Int64 i)
    with assms(2) have "- (2 ^ 63) \<le> i" "i < 2 ^ 63"
      by simp_all
    then have "unpack_i64 (be_bytes 8 (nat (i mod 2 ^ 64))) = Inr i"
      by (rule unpack_pack_i64)
    with Int64 kl key show ?thesis
      by (simp add: decode_field_def field_bytes_def kb slice_def Let_def
          unpack_pack_u16 unpack_pack_u8 [of 1, simplified] unpack_pack_i64 type_codes)
  next
    case (UInt64 i)
    with assms(2) have "0 \<le> i" "i < 2 ^ 64"
      by simp_all
    then have "unpack_u64 (be_bytes 8 (nat i)) = Inr i"
      by (rule unpack_pack_u64)
    with UInt64 kl key show ?thesis
      by (simp add: decode_field_def field_bytes_def kb slice_def Let_def
          unpack_pack_u16 unpack_pack_u8 [of 2, simplified] unpack_pack_u64 type_codes)
  next
    case (Float64 w)
    with assms(2) kl key show ?thesis
      by (simp add: decode_field_def field_bytes_def kb slice_def Let_def
          unpack_pack_u16 unpack_pack_u8 [of 3, simplified] unpack_pack_f64 type_codes)
  next
    case (Str t)
    with assms(2) have "utf8_decode (utf8_bytes t) = Inr t"
      using utf8_decode_encode [of t "utf8_bytes t"] by (simp add: utf8_encode_def)
    with Str assms(2) kl key show ?thesis
      by (simp add: decode_field_def field_bytes_def kb slice_def Let_def
          unpack_pack_u16 unpack_pack_u8 [of 4, simplified] unpack_pack_u32 type_codes)
  next
    case (Binary b)
    with assms(2) kl key show ?thesis
      by (simp add: decode_field_def field_bytes_def kb slice_def Let_def
          unpack_pack_u16 unpack_pack_u8 [of 5, simplified] unpack_pack_u32 type_codes)
  next
    case (Other tag)
    with assms(2) show ?thesis by simp
  qed
qed

lemma field_bytes_nonempty: "0 < length (field_bytes kv)"
  by (simp add: field_bytes_def)

lemma decode_loop_end: "length payload \<le> offset \<Longrightarrow> decode_loop payload offset r = Inr r"
  by (simp add: decode_loop.simps)

lemma decode_loop_step:
  assumes "offset < length payload" "decode_field payload offset = Inr (k, v, offset')"
  shows "decode_loop payload offset r = decode_loop payload offset' (AList.update k v r)"
  using assms by (subst decode_loop.simps) simp

lemma decode_loop_error:
  assumes "offset < length payload" "decode_field payload offset = Inl e"
  shows "decode_loop payload offset r = Inl e"
  using assms by (subst decode_loop.simps) simp

lemma decode_loop_payload:
  "list_all valid_field m \<Longrightarrow>
     decode_loop (pre @ payload_bytes m) (length pre) r
       = Inr (foldl (\<lambda>r kv. AList.update (fst kv) (snd kv) r) r m)"
proof (induction m arbitrary: pre r)
  case Nil
  show ?case by (simp add: payload_bytes_def decode_loop_end)
next
  case (Cons kv m)
  obtain k v where kv: "kv = (k, v)" by (cases kv)
  from Cons.prems have "valid_field kv" and m: "list_all valid_field m"
    by simp_all
  then have ok: "valid_key k" "valid_value v"
    by (simp_all add: valid_field_def kv)
  have split: "pre @ payload_bytes (kv # m) = pre @ field_bytes (k, v) @ payload_bytes m"
    by (simp add: payload_bytes_def kv)
  have "decode_loop (pre @ payload_bytes (kv # m)) (length pre) r
          = decode_loop (pre @ payload_bytes (kv # m)) (length pre + length (field_bytes (k, v)))
              (AList.update k v r)"
  proof (rule decode_loop_step)
    show "length pre < length (pre @ payload_bytes (kv # m))"
      using field_bytes_nonempty [of "(k, v)"] by (simp add: split)
    show "decode_field (pre @ payload_bytes (kv # m)) (length pre)
            = Inr (k, v, length pre + length (field_bytes (k, v)))"
      unfolding split using ok by (rule decode_field_bytes)
  qed
  also have "\<dots> = decode_loop ((pre @ field_bytes (k, v)) @ payload_bytes m)
                      (length (pre @ field_bytes (k, v))) (AList.update k v r)"
    by (simp add: split)
  also have "\<dots> = Inr (foldl (\<lambda>r kv. AList.update (fst kv) (snd kv) r) (AList.update k v r) m)"
    by (rule Cons.IH [OF m])
  finally show ?case by (simp add: kv)
qed

lemma decode_message_frame:
  assumes "length p < 2 ^ 32"
  shows "decode_message (be_bytes 4 (length p) @ p @ s) = decode_loop p 0 []"
  using assms by (simp add: decode_message_def unpack_pack_u32 slice_def)

subsection \<open>The mapping the decoder assembles\<close>

lemma update_fresh: "k \<notin> fst ` set r \<Longrightarrow> AList.update k v r = r @ [(k, v)]"
  by (induction r) auto

lemma foldl_update_distinct:
  "distinct (map fst (r @ m)) \<Longrightarrow>
     foldl (\<lambda>r kv. AList.update (fst kv) (snd kv) r) r m = r @ m"
proof (induction m arbitrary: r)
  case Nil
  show ?case by simp
next
  case (Cons kv m)
  from Cons.prems have "fst kv \<notin> fst ` set r"
    by auto
  then have "AList.update (fst kv) (snd kv) r = r @ [kv]"
    by (simp add: update_fresh)
  moreover from Cons.prems have "distinct (map fst ((r @ [kv]) @ m))"
    by simp
  ultimately show ?case
    using Cons.IH [of "r @ [kv]"] by simp
qed

lemma map_of_foldl_update:
  "map_of (foldl (\<lambda>r kv. AList.update (fst kv) (snd kv) r) r m) = map_of (rev m @ r)"
proof (induction m arbitrary: r)
  case Nil
  show ?case by simp
next
  case (Cons kv m)
  show ?case
    by (cases kv) (simp add: Cons.IH update_conv')
qed

subsection \<open>Round trip\<close>

lemma decode_encoded:
  assumes "encode_message m = Inr f"
  shows "decode_message (f @ s)
           = Inr (foldl (\<lambda>r kv. AList.update (fst kv) (snd kv) r) [] m)"
proof -
  from assms have m: "list_all valid_field m" and len: "length (payload_bytes m) < 2 ^ 32"
    and f: "f = be_bytes 4 (length (payload_bytes m)) @ payload_bytes m"
    by (simp_all add: encode_message_iff)
  have "decode_message (f @ s) = decode_loop (payload_bytes m) 0 []"
    using decode_message_frame [OF len, of s] by (simp add: f)
  also have "\<dots> = Inr (foldl (\<lambda>r kv. AList.update (fst kv) (snd kv) r) [] m)"
    using decode_loop_payload [OF m, of "[]" "[]"] by simp
  finally show ?thesis .
qed

text \<open>
  C2 (as amended). For every valid message \<open>m\<close> (distinct keys; every key encodable in
  UTF-8 with at most 65535 bytes; every value one of the five kinds, an \<^verbatim>\<open>int64\<close> in the
  signed and a \<^verbatim>\<open>uint64\<close> in the unsigned 64-bit range, a string or binary of at most
  \<open>2^32 - 1\<close> bytes) whose payload, all fields together, has at most \<open>2^32 - 1\<close> bytes,
  \<^verbatim>\<open>encode_message\<close> returns a frame and \<^verbatim>\<open>decode_message\<close> of that frame returns \<open>m\<close>,
  with the same keys bound to the same values (here even in the same order).
  A \<^verbatim>\<open>float64\<close> is compared by its 64 bits.
\<close>

theorem roundtrip:
  assumes "valid_message m" and "payload_size m \<le> 4294967295"
  shows "\<exists>f. encode_message m = Inr f \<and> decode_message f = Inr m"
proof -
  from assms(1) have m: "list_all valid_field m" and d: "distinct (map fst m)"
    by (simp_all add: valid_message_def)
  from assms(2) have "length (payload_bytes m) < 2 ^ 32"
    by (simp add: length_payload_bytes [OF m])
  with m obtain f where f: "encode_message m = Inr f"
    by (simp add: encode_message_iff)
  have "decode_message f = Inr (foldl (\<lambda>r kv. AList.update (fst kv) (snd kv) r) [] m)"
    using decode_encoded [OF f, of "[]"] by simp
  also have "\<dots> = Inr m"
    using foldl_update_distinct [of "[]" m] d by simp
  finally show ?thesis
    using f by blast
qed

text \<open>
  A message with all five kinds: the minimum and the maximum \<^verbatim>\<open>int64\<close>, \<open>-1\<close>, the
  maximum \<^verbatim>\<open>uint64\<close> and 0, the empty key, the empty string, the empty binary, and keys
  and a string with characters of one, two, three and four UTF-8 bytes.
\<close>

lemma five_kinds_valid:
  "valid_message
     [([97, 103, 101], Int64 (- 9223372036854775808)), ([], UInt64 18446744073709551615),
      ([8364], Float64 0), ([107], Str []), ([128512], Binary []), ([98], Int64 (- 1)),
      ([233], Str [26085, 26412, 128512]), ([99], Int64 9223372036854775807),
      ([100], UInt64 0), ([101], Binary [0, 255])]"
  by (simp add: valid_message_def valid_field_def valid_key_def utf8_bytes_def utf8_cp_def
      scalar_value_def)

lemma five_kinds_size:
  "payload_size
     [([97, 103, 101], Int64 (- 9223372036854775808)), ([], UInt64 18446744073709551615),
      ([8364], Float64 0), ([107], Str []), ([128512], Binary []), ([98], Int64 (- 1)),
      ([233], Str [26085, 26412, 128512]), ([99], Int64 9223372036854775807),
      ([100], UInt64 0), ([101], Binary [0, 255])]
     \<le> 4294967295"
  by (simp add: payload_size_def utf8_bytes_def utf8_cp_def)

theorem roundtrip_witness:
  "\<exists>f. encode_message
         [([97, 103, 101], Int64 (- 9223372036854775808)), ([], UInt64 18446744073709551615),
          ([8364], Float64 0), ([107], Str []), ([128512], Binary []), ([98], Int64 (- 1)),
          ([233], Str [26085, 26412, 128512]), ([99], Int64 9223372036854775807),
          ([100], UInt64 0), ([101], Binary [0, 255])]
         = Inr f
     \<and> decode_message f
         = Inr [([97, 103, 101], Int64 (- 9223372036854775808)),
                ([], UInt64 18446744073709551615),
                ([8364], Float64 0), ([107], Str []), ([128512], Binary []), ([98], Int64 (- 1)),
                ([233], Str [26085, 26412, 128512]), ([99], Int64 9223372036854775807),
                ([100], UInt64 0), ([101], Binary [0, 255])]"
  by (rule roundtrip [OF five_kinds_valid five_kinds_size])

text \<open>
  C2 does not hold without the bound on the payload. The message with the empty key
  and one binary value of \<open>2^32 - 1\<close> bytes is valid, its payload has \<open>2^32 + 6\<close> bytes,
  and \<^verbatim>\<open>struct.pack\<close> of the header raises \<^verbatim>\<open>struct.error\<close>: nothing is encoded.
\<close>

theorem max_binary_not_encodable:
  "valid_message [([], Binary (replicate 4294967295 0))]
   \<and> encode_message [([], Binary (replicate 4294967295 0))] = Inl StructError"
proof
  show "valid_message [([], Binary (replicate 4294967295 0))]"
    by (simp add: valid_message_def valid_field_def valid_key_def utf8_bytes_def)
next
  have "encode_item [] (Binary (replicate 4294967295 0)) []
          = Inr [be_bytes 2 0, [], be_bytes 1 5, be_bytes 4 4294967295, replicate 4294967295 0]"
    by (simp add: encode_item_def utf8_encode_def utf8_bytes_def pack_u16_def pack_u8_def
        pack_u32_def type_codes)
  then show "encode_message [([], Binary (replicate 4294967295 0))] = Inl StructError"
    by (simp add: encode_message_def pack_u32_def)
qed

subsection \<open>Bytes after the frame, and truncated frames\<close>

text \<open>
  C10. For every message \<open>m\<close> that \<^verbatim>\<open>encode_message\<close> encodes (a valid message: the
  encoder raises on every other one) and every byte string \<open>s\<close>,
  \<^verbatim>\<open>decode_message\<close> of the frame followed by \<open>s\<close> succeeds and returns what
  \<^verbatim>\<open>decode_message\<close> of the frame alone returns: the bytes after the declared length
  are not read.
\<close>

theorem trailing_bytes_ignored:
  assumes "encode_message m = Inr f"
  shows "decode_message (f @ s) = decode_message f \<and> (\<exists>r. decode_message (f @ s) = Inr r)"
  using decode_encoded [OF assms, of s] decode_encoded [OF assms, of "[]"] by simp

theorem trailing_bytes_ignored_witness:
  "decode_message
     ([0x00, 0x00, 0x00, 0x0E, 0x00, 0x03, 0x61, 0x67, 0x65, 0x01,
       0x00, 0x00, 0x00, 0x00, 0x00, 0x00, 0x00, 0x1E] @ [0xFF, 0x00, 0x07])
     = decode_message [0x00, 0x00, 0x00, 0x0E, 0x00, 0x03, 0x61, 0x67, 0x65, 0x01,
                       0x00, 0x00, 0x00, 0x00, 0x00, 0x00, 0x00, 0x1E]
   \<and> (\<exists>r. decode_message
          ([0x00, 0x00, 0x00, 0x0E, 0x00, 0x03, 0x61, 0x67, 0x65, 0x01,
            0x00, 0x00, 0x00, 0x00, 0x00, 0x00, 0x00, 0x1E] @ [0xFF, 0x00, 0x07]) = Inr r)"
  using age_encoded by (rule trailing_bytes_ignored)

text \<open>
  C3. For every frame \<open>f\<close> that \<^verbatim>\<open>encode_message\<close> returns and every strict prefix of
  \<open>f\<close> (its first \<open>n\<close> bytes, \<open>n < length f\<close>), \<^verbatim>\<open>decode_message\<close> raises: \<open>TooShort\<close>
  when the prefix has fewer than 4 bytes, \<open>Incomplete\<close> otherwise. It returns no mapping.
\<close>

theorem strict_prefix_rejected:
  assumes "encode_message m = Inr f" and "n < length f"
  shows "decode_message (take n f) = Inl (if n < 4 then TooShort else Incomplete)"
proof (cases "n < 4")
  case True
  with assms(2) show ?thesis
    by (simp add: decode_message_def)
next
  case False
  from assms(1) have len: "length (payload_bytes m) < 2 ^ 32"
    and f: "f = be_bytes 4 (length (payload_bytes m)) @ payload_bytes m"
    by (simp_all add: encode_message_iff)
  from False have "take 4 (take n f) = be_bytes 4 (length (payload_bytes m))"
    by (simp add: f min_def)
  then have "unpack_u32 (take 4 (take n f)) = Inr (length (payload_bytes m))"
    using len by (simp add: unpack_pack_u32)
  moreover have "length (take n f) < 4 + length (payload_bytes m)"
    using assms(2) by (simp add: f)
  moreover have "\<not> length (take n f) < 4"
    using False assms(2) by simp
  ultimately show ?thesis
    using False by (simp add: decode_message_def)
qed

theorem strict_prefix_rejected_witness:
  "decode_message (take 3 [0x00, 0x00, 0x00, 0x0E, 0x00, 0x03, 0x61, 0x67, 0x65, 0x01,
                          0x00, 0x00, 0x00, 0x00, 0x00, 0x00, 0x00, 0x1E]) = Inl TooShort
   \<and> decode_message (take 17 [0x00, 0x00, 0x00, 0x0E, 0x00, 0x03, 0x61, 0x67, 0x65, 0x01,
                             0x00, 0x00, 0x00, 0x00, 0x00, 0x00, 0x00, 0x1E]) = Inl Incomplete"
  using strict_prefix_rejected [OF age_encoded, of 3]
    strict_prefix_rejected [OF age_encoded, of 17]
  by simp

subsection \<open>Duplicate keys\<close>

text \<open>
  C8. A well-formed frame is a header with the payload's length followed by the bytes of
  valid fields \<open>fs\<close>, where a key may occur in several fields. For every such frame
  \<^verbatim>\<open>decode_message\<close> succeeds, and the mapping it returns binds a key \<open>k\<close> to the value
  \<open>v\<close> of the last field with that key (no field after \<open>(k, v)\<close> has the key \<open>k\<close>):
  for every key, the last occurrence in payload order wins.
\<close>

theorem duplicate_key_last_wins:
  assumes "fs = fs1 @ (k, v) # fs2" and "k \<notin> fst ` set fs2"
    and "list_all valid_field fs" and "payload_size fs \<le> 4294967295"
  shows "\<exists>r. decode_message (be_bytes 4 (length (payload_bytes fs)) @ payload_bytes fs) = Inr r
             \<and> map_of r k = Some v \<and> map_of r = map_of (rev fs)"
proof -
  define r where "r = foldl (\<lambda>r kv. AList.update (fst kv) (snd kv) r) [] fs"
  from assms(3,4) have "length (payload_bytes fs) < 2 ^ 32"
    by (simp add: length_payload_bytes)
  then have "decode_message (be_bytes 4 (length (payload_bytes fs)) @ payload_bytes fs)
               = decode_loop (payload_bytes fs) 0 []"
    using decode_message_frame [of "payload_bytes fs" "[]"] by simp
  also have "\<dots> = Inr r"
    using decode_loop_payload [OF assms(3), of "[]" "[]"] by (simp add: r_def)
  finally have dec:
    "decode_message (be_bytes 4 (length (payload_bytes fs)) @ payload_bytes fs) = Inr r" .
  have all: "map_of r = map_of (rev fs)"
    using map_of_foldl_update [of "[]" fs] by (simp add: r_def)
  from assms(2) have "map_of (rev fs2) k = None"
    by (simp add: map_of_eq_None_iff)
  then have "map_of (rev fs) k = Some v"
    by (simp add: assms(1) map_add_def)
  with dec all show ?thesis
    by simp
qed

text \<open>The key \<^verbatim>\<open>"k"\<close> twice, first as \<^verbatim>\<open>int64\<close> 1, then as the string \<^verbatim>\<open>"hi"\<close>.\<close>

lemma twice_k_frame:
  "be_bytes 4 (length (payload_bytes
      [([107], Int64 1), ([107], Str [104, 105]), ([98], Binary [])]))
     @ payload_bytes [([107], Int64 1), ([107], Str [104, 105]), ([98], Binary [])]
   = [0x00, 0x00, 0x00, 0x1E,
      0x00, 0x01, 0x6B, 0x01, 0x00, 0x00, 0x00, 0x00, 0x00, 0x00, 0x00, 0x01,
      0x00, 0x01, 0x6B, 0x04, 0x00, 0x00, 0x00, 0x02, 0x68, 0x69,
      0x00, 0x01, 0x62, 0x05, 0x00, 0x00, 0x00, 0x00]"
  by (simp add: payload_bytes_def field_bytes_def utf8_bytes_def utf8_cp_def be_eval)

theorem duplicate_key_last_wins_witness:
  "\<exists>r. decode_message
         [0x00, 0x00, 0x00, 0x1E,
          0x00, 0x01, 0x6B, 0x01, 0x00, 0x00, 0x00, 0x00, 0x00, 0x00, 0x00, 0x01,
          0x00, 0x01, 0x6B, 0x04, 0x00, 0x00, 0x00, 0x02, 0x68, 0x69,
          0x00, 0x01, 0x62, 0x05, 0x00, 0x00, 0x00, 0x00] = Inr r
       \<and> map_of r [107] = Some (Str [104, 105])
       \<and> map_of r = map_of (rev [([107], Int64 1), ([107], Str [104, 105]), ([98], Binary [])])"
proof -
  have "[([107], Int64 1), ([107], Str [104, 105]), ([98], Binary [])]
          = [([107], Int64 1)] @ ([107], Str [104, 105]) # [([98], Binary [])]"
    by simp
  moreover have "[107] \<notin> fst ` set [([98 :: nat], Binary [])]"
    by simp
  moreover have "list_all valid_field
      [([107], Int64 1), ([107], Str [104, 105]), ([98], Binary [])]"
    by (simp add: valid_field_def valid_key_def utf8_bytes_def utf8_cp_def scalar_value_def)
  moreover have "payload_size [([107], Int64 1), ([107], Str [104, 105]), ([98], Binary [])]
      \<le> 4294967295"
    by (simp add: payload_size_def utf8_bytes_def utf8_cp_def)
  ultimately show ?thesis
    unfolding twice_k_frame [symmetric] by (rule duplicate_key_last_wins)
qed

subsection \<open>Unknown type codes\<close>

lemma after_passes_loop:
  "after_passes payload n = Some (off, r) \<Longrightarrow>
     decode_loop payload 0 [] = decode_loop payload off r"
proof (induction n arbitrary: off r)
  case 0
  then show ?case by simp
next
  case (Suc n)
  from Suc.prems obtain o1 r1 k v where
    prev: "after_passes payload n = Some (o1, r1)" and lt: "o1 < length payload"
    and fld: "decode_field payload o1 = Inr (k, v, off)" and r: "r = AList.update k v r1"
    by (auto split: option.splits if_splits sum.splits)
  have "decode_loop payload 0 [] = decode_loop payload o1 r1"
    by (rule Suc.IH [OF prev])
  also have "\<dots> = decode_loop payload off r"
    unfolding r using lt fld by (rule decode_loop_step)
  finally show ?case .
qed

lemma decode_message_covered:
  assumes "unpack_u32 (take 4 b) = Inr L" and "4 + L \<le> length b"
  shows "decode_message b = decode_loop (slice b 4 (4 + L)) 0 []"
  using assms by (simp add: decode_message_def)

text \<open>
  C7. Let the buffer \<open>b\<close> cover its declared length \<open>L\<close>, and let the loop have made
  \<open>n\<close> passes over the payload without raising, up to the offset \<open>off\<close>. If the field at
  \<open>off\<close> has a readable key length, a key that decodes, and a type code byte \<open>tc\<close> outside
  \<open>{1, 2, 3, 4, 5}\<close>, then \<^verbatim>\<open>decode_message\<close> raises \<open>UnknownTypeCode\<close>.
\<close>

theorem unknown_type_code:
  assumes hdr: "unpack_u32 (take 4 b) = Inr L" and cov: "4 + L \<le> length b"
    and pl: "payload = slice b 4 (4 + L)"
    and pass: "after_passes payload n = Some (off, r)"
    and kl: "unpack_u16 (slice payload off (off + 2)) = Inr kl"
    and key: "utf8_decode (slice payload (off + 2) (off + 2 + kl)) = Inr key"
    and tc: "unpack_u8 (slice payload (off + 2 + kl) (off + 2 + kl + 1)) = Inr tc"
    and bad: "tc \<notin> {1, 2, 3, 4, 5}"
  shows "decode_message b = Inl UnknownTypeCode"
proof -
  from tc have "length (slice payload (off + 2 + kl) (off + 2 + kl + 1)) = 1"
    by (simp add: unpack_u8_def split: if_splits)
  then have lt: "off < length payload"
    by (simp add: slice_def)
  have fld: "decode_field payload off = Inl UnknownTypeCode"
    using kl key tc bad by (simp add: decode_field_def Let_def type_codes)
  have "decode_message b = decode_loop payload 0 []"
    unfolding pl using hdr cov by (rule decode_message_covered)
  also have "\<dots> = decode_loop payload off r"
    using pass by (rule after_passes_loop)
  also have "\<dots> = Inl UnknownTypeCode"
    using lt fld by (rule decode_loop_error)
  finally show ?thesis .
qed

text \<open>One \<^verbatim>\<open>int64\<close> field, then a field with the key \<^verbatim>\<open>"b"\<close> and the type code 9.\<close>

lemma k_field:
  "decode_field [0x00, 0x01, 0x6B, 0x01, 0x00, 0x00, 0x00, 0x00, 0x00, 0x00, 0x00, 0x01,
                 0x00, 0x01, 0x62, 0x09, 0xAA] 0 = Inr ([107], Int64 1, 12)"
  by (simp add: decode_field_def slice_def unpack_defs utf8_decode_def cont_def
      type_codes be_eval)

theorem unknown_type_code_witness:
  "decode_message [0x00, 0x00, 0x00, 0x11,
                   0x00, 0x01, 0x6B, 0x01, 0x00, 0x00, 0x00, 0x00, 0x00, 0x00, 0x00, 0x01,
                   0x00, 0x01, 0x62, 0x09, 0xAA, 0xBB] = Inl UnknownTypeCode"
proof (rule unknown_type_code)
  show "unpack_u32 (take 4 [0x00, 0x00, 0x00, 0x11,
                   0x00, 0x01, 0x6B, 0x01, 0x00, 0x00, 0x00, 0x00, 0x00, 0x00, 0x00, 0x01,
                   0x00, 0x01, 0x62, 0x09, 0xAA, 0xBB]) = Inr 17"
    by (simp add: unpack_u32_def be_eval)
  show "4 + 17 \<le> length [0x00, 0x00, 0x00, 0x11,
                   0x00, 0x01, 0x6B, 0x01, 0x00, 0x00, 0x00, 0x00, 0x00, 0x00, 0x00, 0x01,
                   0x00, 0x01, 0x62, 0x09, 0xAA, 0xBB :: byte]"
    by simp
  show "[0x00, 0x01, 0x6B, 0x01, 0x00, 0x00, 0x00, 0x00, 0x00, 0x00, 0x00, 0x01,
         0x00, 0x01, 0x62, 0x09, 0xAA]
        = slice [0x00, 0x00, 0x00, 0x11,
                   0x00, 0x01, 0x6B, 0x01, 0x00, 0x00, 0x00, 0x00, 0x00, 0x00, 0x00, 0x01,
                   0x00, 0x01, 0x62, 0x09, 0xAA, 0xBB :: byte] 4 (4 + 17)"
    by (simp add: slice_def)
  show "after_passes [0x00, 0x01, 0x6B, 0x01, 0x00, 0x00, 0x00, 0x00, 0x00, 0x00, 0x00, 0x01,
         0x00, 0x01, 0x62, 0x09, 0xAA] (Suc 0) = Some (12, [([107], Int64 1)])"
    by (simp add: k_field)
  show "unpack_u16 (slice [0x00, 0x01, 0x6B, 0x01, 0x00, 0x00, 0x00, 0x00, 0x00, 0x00, 0x00, 0x01,
         0x00, 0x01, 0x62, 0x09, 0xAA] 12 (12 + 2)) = Inr 1"
    by (simp add: slice_def unpack_u16_def be_eval)
  show "utf8_decode (slice [0x00, 0x01, 0x6B, 0x01, 0x00, 0x00, 0x00, 0x00, 0x00, 0x00, 0x00, 0x01,
         0x00, 0x01, 0x62, 0x09, 0xAA] (12 + 2) (12 + 2 + 1)) = Inr [98]"
    by (simp add: slice_def utf8_decode_def)
  show "unpack_u8 (slice [0x00, 0x01, 0x6B, 0x01, 0x00, 0x00, 0x00, 0x00, 0x00, 0x00, 0x00, 0x01,
         0x00, 0x01, 0x62, 0x09, 0xAA] (12 + 2 + 1) (12 + 2 + 1 + 1)) = Inr 9"
    by (simp add: slice_def unpack_u8_def be_eval)
  show "(9 :: nat) \<notin> {1, 2, 3, 4, 5}"
    by simp
qed

subsection \<open>Values cut at the end of the payload\<close>

text \<open>
  C1. The specification asks for a buffer underrun error whenever the bytes that remain
  in the payload are fewer than a read requires. The code does not raise when the data
  of a binary or string field is short: for a field that declares 10 data bytes in a
  payload that has only 2 left, the slice \<^verbatim>\<open>payload[offset:offset+bin_length]\<close> is cut
  at the end of the payload, the loop ends because the offset is past the end, and
  \<^verbatim>\<open>decode_message\<close> returns a mapping with the two bytes as the value.
\<close>

theorem truncated_value_accepted:
  "decode_message [0x00, 0x00, 0x00, 0x0A,
                   0x00, 0x01, 0x6B, 0x05, 0x00, 0x00, 0x00, 0x0A, 0x01, 0x02]
     = Inr [([107], Binary [0x01, 0x02])]
   \<and> decode_message [0x00, 0x00, 0x00, 0x0A,
                      0x00, 0x01, 0x6B, 0x04, 0x00, 0x00, 0x00, 0x0A, 0x68, 0x69]
     = Inr [([107], Str [104, 105])]"
proof
  have "decode_field [0x00, 0x01, 0x6B, 0x05, 0x00, 0x00, 0x00, 0x0A, 0x01, 0x02] 0
          = Inr ([107], Binary [0x01, 0x02], 18)"
    by (simp add: decode_field_def slice_def unpack_defs utf8_decode_def type_codes be_eval)
  then show "decode_message [0x00, 0x00, 0x00, 0x0A,
                   0x00, 0x01, 0x6B, 0x05, 0x00, 0x00, 0x00, 0x0A, 0x01, 0x02]
     = Inr [([107], Binary [0x01, 0x02])]"
    by (simp add: decode_message_def unpack_u32_def slice_def be_eval decode_loop.simps)
next
  have "decode_field [0x00, 0x01, 0x6B, 0x04, 0x00, 0x00, 0x00, 0x0A, 0x68, 0x69] 0
          = Inr ([107], Str [104, 105], 18)"
    by (simp add: decode_field_def slice_def unpack_defs utf8_decode_def type_codes be_eval)
  then show "decode_message [0x00, 0x00, 0x00, 0x0A,
                      0x00, 0x01, 0x6B, 0x04, 0x00, 0x00, 0x00, 0x0A, 0x68, 0x69]
     = Inr [([107], Str [104, 105])]"
    by (simp add: decode_message_def unpack_u32_def slice_def be_eval decode_loop.simps)
qed

subsection \<open>Keys longer than 65535 bytes\<close>

text \<open>
  C9. For every message with a key whose UTF-8 encoding has more than 65535 bytes,
  \<^verbatim>\<open>struct.pack\<close> of the 2-byte key length raises \<^verbatim>\<open>struct.error\<close> in the pass of the loop
  for that key, and \<^verbatim>\<open>encode_message\<close> raises: it returns no frame, so none with a wrapped
  or truncated key length.
\<close>

theorem long_key_rejected:
  assumes "(k, v) \<in> set m" and "list_all scalar_value k" and "65535 < length (utf8_bytes k)"
  shows "encode_item k v parts = Inl StructError \<and> (\<exists>e. encode_message m = Inl e)"
proof
  show "encode_item k v parts = Inl StructError"
    using assms(2,3) by (simp add: encode_item_def utf8_encode_def pack_u16_def)
next
  have "encode_message m \<noteq> Inr f" for f
  proof
    assume "encode_message m = Inr f"
    then have "list_all valid_field m"
      by (simp add: encode_message_iff)
    with assms(1) have "valid_field (k, v)"
      by (auto simp: list_all_iff)
    with assms(3) show False
      by (simp add: valid_field_def valid_key_def)
  qed
  then show "\<exists>e. encode_message m = Inl e"
    by (cases "encode_message m") auto
qed

lemma utf8_bytes_ascii: "length (utf8_bytes (replicate n 97)) = n"
  by (simp add: utf8_bytes_def utf8_cp_def length_concat)

theorem long_key_rejected_witness:
  "encode_item (replicate 65536 97) (Int64 0) [] = Inl StructError
   \<and> (\<exists>e. encode_message [([98], Str []), (replicate 65536 97, Int64 0)] = Inl e)"
proof (rule long_key_rejected)
  show "(replicate 65536 97, Int64 0) \<in> set [([98], Str []), (replicate 65536 97, Int64 0)]"
    by simp
  show "list_all scalar_value (replicate 65536 97)"
    by (simp add: list_all_iff scalar_value_def)
  show "65535 < length (utf8_bytes (replicate 65536 97))"
    by (simp add: utf8_bytes_ascii)
qed

subsection \<open>The read loop\<close>

lemma available_Nil [simp]: "available [] = []"
  by (simp add: available_def)

lemma available_Cons:
  "available (c # cs) = (if c = [] then [] else c @ available cs)"
  by (simp add: available_def)

lemma recv_available:
  assumes "0 < k" and "recv sock k = (packet, sock')"
  shows "available sock = packet @ available sock'"
    and "length packet \<le> k"
    and "packet = [] \<Longrightarrow> available sock = []"
  using assms
  by (cases sock; auto simp: available_Cons split: if_splits)+

lemma recvall_loop_available:
  "length data \<le> n \<Longrightarrow>
     fst (recvall_loop sock n data) = data @ take (n - length data) (available sock) \<and>
     available (snd (recvall_loop sock n data)) = drop (n - length data) (available sock)"
proof (induction sock n data rule: recvall_loop.induct)
  case (1 sock n data)
  show ?case
  proof (cases "length data < n")
    case False
    with "1.prems" show ?thesis
      by (subst (1 2) recvall_loop.simps) simp
  next
    case True
    obtain packet sock' where rc: "recv sock (n - length data) = (packet, sock')"
      by (cases "recv sock (n - length data)")
    from True have k: "0 < n - length data"
      by simp
    note av = recv_available [OF k rc]
    show ?thesis
    proof (cases "packet = []")
      case True
      with av have "available sock = []" "available sock' = []"
        by simp_all
      with True \<open>length data < n\<close> rc show ?thesis
        by (subst (1 2) recvall_loop.simps) simp
    next
      case False
      from av(2) True have le: "length (data @ packet) \<le> n"
        by simp
      have step: "recvall_loop sock n data = recvall_loop sock' n (data @ packet)"
        using True rc False by (subst recvall_loop.simps) simp
      from "1.IH" [OF True rc [symmetric] False le] av(1,2) show ?thesis
        by (simp add: step)
    qed
  qed
qed

text \<open>
  C5. For every stream of chunks and every count \<open>n\<close>, \<^verbatim>\<open>recvall\<close> returns (it is a total
  function: it raises nothing) the first \<open>n\<close> of the bytes that arrive before the peer
  closes, or all of them if they are fewer: what it returns has length
  \<open>min n (length (available sock))\<close>.
\<close>

theorem recvall_returns_available:
  "fst (recvall sock n) = take n (available sock)
   \<and> length (fst (recvall sock n)) = min n (length (available sock))"
  using recvall_loop_available [of "[]" n sock] by (simp add: recvall_def min.commute)

subsection \<open>Receiving a message\<close>

lemma recvall_available:
  "fst (recvall sock n) = take n (available sock)"
  "available (snd (recvall sock n)) = drop n (available sock)"
  using recvall_loop_available [of "[]" n sock] by (simp_all add: recvall_def)

text \<open>
  C4. \<^verbatim>\<open>recv_message\<close> reads 4 bytes with \<^verbatim>\<open>recvall\<close> (the first 4 bytes available on the
  stream) and raises \<open>HeaderReadFailed\<close> if it obtained fewer than 4; the socket is then
  left as that read left it. Otherwise it reads these 4 bytes as the big-endian length
  \<open>L\<close> (\<^verbatim>\<open>struct.unpack\<close> cannot raise here), reads \<open>L\<close> bytes with \<^verbatim>\<open>recvall\<close> from where
  the header ended, raises \<open>PayloadReadFailed\<close> if it obtained fewer than \<open>L\<close>, and
  otherwise returns \<^verbatim>\<open>decode_message\<close> of the header followed by the payload; the socket
  is then left as the second read left it, so that exactly the header and the \<open>L\<close> bytes
  after it (or what arrived of them before the peer closed) are consumed.
\<close>

theorem recv_message_steps:
  assumes "recvall sock 4 = (header, sock1)"
    and "recvall sock1 (be_nat header) = (payload, sock2)"
  shows "fst (recv_message sock) =
           (if length header < 4 then Inl HeaderReadFailed
            else if length payload < be_nat header then Inl PayloadReadFailed
            else decode_message (header @ payload))
         \<and> snd (recv_message sock) = (if length header < 4 then sock1 else sock2)
         \<and> header = take 4 (available sock)
         \<and> payload = take (be_nat header) (available sock1)
         \<and> available sock1 = drop 4 (available sock)
         \<and> available sock2 = drop (be_nat header) (available sock1)"
proof -
  have h: "header = take 4 (available sock)" and s1: "available sock1 = drop 4 (available sock)"
    using recvall_available [of sock 4] assms(1) by simp_all
  have p: "payload = take (be_nat header) (available sock1)"
    and s2: "available sock2 = drop (be_nat header) (available sock1)"
    using recvall_available [of sock1 "be_nat header"] assms(2) by simp_all
  have "length header \<le> 4"
    by (simp add: h)
  then have u: "\<not> length header < 4 \<Longrightarrow> unpack_u32 header = Inr (be_nat header)"
    by (simp add: unpack_u32_def)
  have "fst (recv_message sock) =
           (if length header < 4 then Inl HeaderReadFailed
            else if length payload < be_nat header then Inl PayloadReadFailed
            else decode_message (header @ payload))"
    using u by (simp add: recv_message_def assms)
  moreover have "snd (recv_message sock) = (if length header < 4 then sock1 else sock2)"
    using u by (simp add: recv_message_def assms)
  ultimately show ?thesis
    using h p s1 s2 by simp
qed

text \<open>
  The frame of \<^verbatim>\<open>{"age": ("int64", 30)}\<close> arriving in three chunks, the last with two
  bytes of the next frame, which stay on the socket; a peer that closes after two bytes;
  a peer that closes after two bytes of the payload.
\<close>

lemma recvall_age_header:
  "recvall [[0x00, 0x00], [0x00, 0x0E, 0x00, 0x03, 0x61, 0x67, 0x65, 0x01, 0x00, 0x00],
            [0x00, 0x00, 0x00, 0x00, 0x00, 0x1E, 0x07, 0x08], []] 4
     = ([0x00, 0x00, 0x00, 0x0E],
        [[0x00, 0x03, 0x61, 0x67, 0x65, 0x01, 0x00, 0x00],
         [0x00, 0x00, 0x00, 0x00, 0x00, 0x1E, 0x07, 0x08], []])"
  by (simp add: recvall_def recvall_loop.simps)

lemma recvall_age_payload:
  "recvall [[0x00, 0x03, 0x61, 0x67, 0x65, 0x01, 0x00, 0x00],
         [0x00, 0x00, 0x00, 0x00, 0x00, 0x1E, 0x07, 0x08], []] 14
     = ([0x00, 0x03, 0x61, 0x67, 0x65, 0x01, 0x00, 0x00, 0x00, 0x00, 0x00, 0x00, 0x00, 0x1E],
        [[0x07, 0x08], []])"
  by (simp add: recvall_def recvall_loop.simps)

theorem recv_message_steps_witness:
  "recv_message
     [[0x00, 0x00], [0x00, 0x0E, 0x00, 0x03, 0x61, 0x67, 0x65, 0x01, 0x00, 0x00],
      [0x00, 0x00, 0x00, 0x00, 0x00, 0x1E, 0x07, 0x08], []]
     = (Inr [([97, 103, 101], Int64 30)], [[0x07, 0x08], []])
   \<and> recv_message [[0x00, 0x00], []] = (Inl HeaderReadFailed, [[]])
   \<and> recv_message [[0x00, 0x00, 0x00, 0x0E, 0x00, 0x03], []] = (Inl PayloadReadFailed, [[]])"
proof (intro conjI)
  have "be_nat [0x00, 0x00, 0x00, 0x0E] = 14"
    by (simp add: be_nat_def)
  with recvall_age_payload
  have "recvall [[0x00, 0x03, 0x61, 0x67, 0x65, 0x01, 0x00, 0x00],
         [0x00, 0x00, 0x00, 0x00, 0x00, 0x1E, 0x07, 0x08], []] (be_nat [0x00, 0x00, 0x00, 0x0E])
     = ([0x00, 0x03, 0x61, 0x67, 0x65, 0x01, 0x00, 0x00, 0x00, 0x00, 0x00, 0x00, 0x00, 0x1E],
        [[0x07, 0x08], []])"
    by simp
  from recv_message_steps [OF recvall_age_header this]
  show "recv_message
     [[0x00, 0x00], [0x00, 0x0E, 0x00, 0x03, 0x61, 0x67, 0x65, 0x01, 0x00, 0x00],
      [0x00, 0x00, 0x00, 0x00, 0x00, 0x1E, 0x07, 0x08], []]
     = (Inr [([97, 103, 101], Int64 30)], [[0x07, 0x08], []])"
    by (simp add: be_nat_def age_decoded prod_eq_iff)
next
  have "recvall [[0x00, 0x00], []] 4 = ([0x00, 0x00], [[]])"
    by (simp add: recvall_def recvall_loop.simps)
  moreover have "recvall [[]] (be_nat [0x00, 0x00]) = ([], [[]])"
    by (simp add: recvall_def recvall_loop.simps be_nat_def)
  ultimately show "recv_message [[0x00, 0x00], []] = (Inl HeaderReadFailed, [[]])"
    using recv_message_steps [of "[[0x00, 0x00], []]" "[0x00, 0x00]" "[[]]" "[]" "[[]]"]
    by (simp add: prod_eq_iff)
next
  have "recvall [[0x00, 0x00, 0x00, 0x0E, 0x00, 0x03], []] 4
          = ([0x00, 0x00, 0x00, 0x0E], [[0x00, 0x03], []])"
    by (simp add: recvall_def recvall_loop.simps)
  moreover have "recvall [[0x00, 0x03], []] (be_nat [0x00, 0x00, 0x00, 0x0E])
          = ([0x00, 0x03], [[]])"
    by (simp add: recvall_def recvall_loop.simps be_nat_def)
  ultimately show
    "recv_message [[0x00, 0x00, 0x00, 0x0E, 0x00, 0x03], []] = (Inl PayloadReadFailed, [[]])"
    using recv_message_steps [of "[[0x00, 0x00, 0x00, 0x0E, 0x00, 0x03], []]"
        "[0x00, 0x00, 0x00, 0x0E]" "[[0x00, 0x03], []]" "[0x00, 0x03]" "[[]]"]
    by (simp add: be_nat_def prod_eq_iff)
qed

end
